theory Spec2Isabelle
  imports Complex_Main "HOL-Library.Stream" "HOL-Library.Sublist"
begin

section \<open>BiOxiOptimize: the blend optimiser of \<^verbatim>\<open>BiOxiOptimize.py\<close>\<close>

text \<open>
  The program works on Python floats. In the optimiser they are modelled as real numbers:
  every arithmetic operation is the exact one, and statements about it carry a tolerance
  where the program's rounding could decide them. The synergy module is also given on
  binary64 numbers with every operation rounded, for the properties that rounding
  decides. What Python raises is kept: a division by a zero divisor, an index out of
  range, a missing key, \<^verbatim>\<open>list.index\<close> on an absent element.
\<close>

subsection \<open>Errors and container access\<close>

datatype py_error = IndexError | KeyError | ValueError | ZeroDivisionError | NameError

text \<open>\<^verbatim>\<open>xs[i]\<close> for an index that is never negative.\<close>

definition getitem :: "'a list \<Rightarrow> nat \<Rightarrow> py_error + 'a" where
  "getitem xs i = (if i < length xs then Inr (xs ! i) else Inl IndexError)"

text \<open>\<^verbatim>\<open>d[k]\<close> on a dict, kept as an association list in insertion order.\<close>

definition getkey :: "('k \<times> 'v) list \<Rightarrow> 'k \<Rightarrow> py_error + 'v" where
  "getkey d k = (case map_of d k of None \<Rightarrow> Inl KeyError | Some v \<Rightarrow> Inr v)"

text \<open>\<^verbatim>\<open>xs.index(y)\<close>: the first position of \<open>y\<close>, ValueError when there is none.\<close>

fun index_of :: "'a list \<Rightarrow> 'a \<Rightarrow> py_error + nat" where
  "index_of [] y = Inl ValueError"
| "index_of (x # xs) y =
     (if x = y then Inr 0
      else case index_of xs y of Inl e \<Rightarrow> Inl e | Inr n \<Rightarrow> Inr (Suc n))"

subsection \<open>Industry data and constraints\<close>

record component =
  stability_IP :: real
  viscosity :: real
  cost :: real

definition COMPONENTS :: "(string \<times> component) list" where
  "COMPONENTS =
     [(''Methyl_Oleate'', \<lparr>stability_IP = 5.0, viscosity = 4.5, cost = 1.20\<rparr>),
      (''Methyl_Palmitate'', \<lparr>stability_IP = 12.0, viscosity = 6.0, cost = 1.50\<rparr>),
      (''Methyl_Linoleate'', \<lparr>stability_IP = 1.0, viscosity = 4.0, cost = 1.30\<rparr>),
      (''BHT_Antioxidant'', \<lparr>stability_IP = 0.0, viscosity = 10.0, cost = 15.0\<rparr>)]"

definition COMPONENT_NAMES :: "string list" where
  "COMPONENT_NAMES = map fst COMPONENTS"

definition POPULATION_SIZE :: nat where
  "POPULATION_SIZE = 100"

definition GENERATIONS :: nat where
  "GENERATIONS = 100"

definition BHT_SOLUBILITY_MAX :: real where
  "BHT_SOLUBILITY_MAX = 0.002"

subsection \<open>The kinetic synergy module\<close>

text \<open>
  \<^verbatim>\<open>return base_IP + (Vmax * (bht_pct / (Km + bht_pct)))\<close>: the float division raises
  ZeroDivisionError when \<open>Km + bht_pct\<close> is zero.
\<close>

definition calculate_stability :: "real \<Rightarrow> real \<Rightarrow> py_error + real" where
  "calculate_stability bht_pct base_IP =
     (let Vmax = 12.0; Km = 0.0005
      in if Km + bht_pct = 0 then Inl ZeroDivisionError
         else Inr (base_IP + (Vmax * (bht_pct / (Km + bht_pct)))))"

subsection \<open>Double precision\<close>







subsection \<open>The fitness evaluator\<close>

text \<open>
  The loop over \<^verbatim>\<open>enumerate(COMPONENT_NAMES)\<close>; the accumulator is
  \<open>(base_IP, viscosity, cost)\<close>.
\<close>

fun accumulate ::
  "(nat \<times> string) list \<Rightarrow> real list \<Rightarrow> real \<times> real \<times> real \<Rightarrow> py_error + real \<times> real \<times> real" where
  "accumulate [] individual acc = Inr acc"
| "accumulate ((i, name) # rest) individual (base_IP, visc, cst) =
     (case getitem individual i of
        Inl e \<Rightarrow> Inl e
      | Inr pct \<Rightarrow>
          (case getkey COMPONENTS name of
             Inl e \<Rightarrow> Inl e
           | Inr entry \<Rightarrow>
               accumulate rest individual
                 (if name \<noteq> ''BHT_Antioxidant'' then base_IP + pct * stability_IP entry
                  else base_IP,
                  visc + pct * viscosity entry,
                  cst + pct * cost entry)))"

text \<open>The four guards of the penalty block, each as the source compares.\<close>

definition stability_shortfall :: "real \<Rightarrow> bool" where
  "stability_shortfall total_IP = (total_IP < 8.0)"

definition viscosity_excess :: "real \<Rightarrow> bool" where
  "viscosity_excess visc = (visc > 6.0)"

definition palmitate_excess :: "real \<Rightarrow> bool" where
  "palmitate_excess palmitate_pct = (palmitate_pct > 0.30)"

definition solubility_excess :: "real \<Rightarrow> bool" where
  "solubility_excess bht_pct = (bht_pct > BHT_SOLUBILITY_MAX)"

definition penalties :: "real \<Rightarrow> real \<Rightarrow> real \<Rightarrow> real \<Rightarrow> real" where
  "penalties total_IP visc palmitate_pct bht_pct =
     (let p = 0;
          p = (if stability_shortfall total_IP then p + (8.0 - total_IP) * 50 else p);
          p = (if viscosity_excess visc then p + (visc - 6.0) * 100 else p);
          p = (if palmitate_excess palmitate_pct then p + (palmitate_pct - 0.30) * 150 else p);
          p = (if solubility_excess bht_pct then p + (bht_pct - BHT_SOLUBILITY_MAX) * 500 else p)
      in p)"

definition calculate_fitness :: "real list \<Rightarrow> py_error + real \<times> real \<times> real" where
  "calculate_fitness individual =
     (case index_of COMPONENT_NAMES ''BHT_Antioxidant'' of
        Inl e \<Rightarrow> Inl e
      | Inr bht_idx \<Rightarrow>
     (case getitem individual bht_idx of
        Inl e \<Rightarrow> Inl e
      | Inr bht_pct \<Rightarrow>
     (case index_of COMPONENT_NAMES ''Methyl_Palmitate'' of
        Inl e \<Rightarrow> Inl e
      | Inr palmitate_idx \<Rightarrow>
     (case getitem individual palmitate_idx of
        Inl e \<Rightarrow> Inl e
      | Inr palmitate_pct \<Rightarrow>
     (case accumulate (enumerate 0 COMPONENT_NAMES) individual (0.0, 0.0, 0.0) of
        Inl e \<Rightarrow> Inl e
      | Inr (base_IP, visc, cst) \<Rightarrow>
     (case calculate_stability bht_pct base_IP of
        Inl e \<Rightarrow> Inl e
      | Inr total_IP \<Rightarrow>
          (let fitness = (total_IP * 2.0) - (cst * 10.0)
                         - penalties total_IP visc palmitate_pct bht_pct
           in Inr (fitness, total_IP, cst))))))))"

subsection \<open>The random source\<close>

text \<open>
  The program draws from the global generator of Python's \<^verbatim>\<open>random\<close> module, which it
  never seeds. The generator's hidden state is modelled as two tapes that the library
  calls consume: the values \<^verbatim>\<open>random.random()\<close> will return, and the raw draws behind
  \<^verbatim>\<open>_randbelow(n)\<close>, reduced modulo \<open>n\<close> so that the result is below \<open>n\<close> as the
  library guarantees. Every behaviour of the library is the behaviour of some tape.
  The library's contract that \<^verbatim>\<open>random.random()\<close> lies in \<open>[0, 1)\<close> is the predicate
  \<open>floats_ok\<close>.
\<close>

record rng =
  floats :: "real stream"
  ints :: "nat stream"

definition floats_ok :: "rng \<Rightarrow> bool" where
  "floats_ok g = (\<forall>u \<in> sset (floats g). 0 \<le> u \<and> u < 1)"

definition random_random :: "rng \<Rightarrow> real \<times> rng" where
  "random_random g = (shd (floats g), g\<lparr>floats := stl (floats g)\<rparr>)"

definition randbelow :: "nat \<Rightarrow> rng \<Rightarrow> nat \<times> rng" where
  "randbelow n g = (shd (ints g) mod n, g\<lparr>ints := stl (ints g)\<rparr>)"

text \<open>\<^verbatim>\<open>random.choice(seq)\<close> is \<^verbatim>\<open>seq[_randbelow(len(seq))]\<close>, IndexError on an empty one.\<close>

definition random_choice :: "'a list \<Rightarrow> rng \<Rightarrow> py_error + 'a \<times> rng" where
  "random_choice xs g =
     (if xs = [] then Inl IndexError
      else (let (k, g') = randbelow (length xs) g in Inr (xs ! k, g')))"

text \<open>\<^verbatim>\<open>random.randint(a, b)\<close> is \<^verbatim>\<open>a + _randbelow(b - a + 1)\<close>, ValueError on an empty range.\<close>

definition random_randint :: "int \<Rightarrow> int \<Rightarrow> rng \<Rightarrow> py_error + int \<times> rng" where
  "random_randint a b g =
     (if b < a then Inl ValueError
      else (let (k, g') = randbelow (nat (b - a + 1)) g in Inr (a + int k, g')))"

text \<open>\<^verbatim>\<open>random.uniform(a, b)\<close> is \<^verbatim>\<open>a + (b - a) * random()\<close>.\<close>

definition random_uniform :: "real \<Rightarrow> real \<Rightarrow> rng \<Rightarrow> real \<times> rng" where
  "random_uniform a b g = (let (u, g') = random_random g in (a + (b - a) * u, g'))"

subsection \<open>The initial population\<close>

text \<open>\<^verbatim>\<open>[random.random() for _ in range(n)]\<close>\<close>

fun draw_floats :: "nat \<Rightarrow> rng \<Rightarrow> real list \<times> rng" where
  "draw_floats 0 g = ([], g)"
| "draw_floats (Suc n) g =
     (let (u, g1) = random_random g; (us, g2) = draw_floats n g1 in (u # us, g2))"

text \<open>\<^verbatim>\<open>[[random.random() for _ in range(m)] for _ in range(n)]\<close>\<close>

fun draw_vectors :: "nat \<Rightarrow> nat \<Rightarrow> rng \<Rightarrow> real list list \<times> rng" where
  "draw_vectors 0 m g = ([], g)"
| "draw_vectors (Suc n) m g =
     (let (v, g1) = draw_floats m g; (vs, g2) = draw_vectors n m g1 in (v # vs, g2))"

text \<open>
  \<^verbatim>\<open>[x/sum(ind) for x in ind]\<close>: the first division raises ZeroDivisionError when the sum
  is zero; on an empty vector nothing is divided.
\<close>

definition renormalize :: "real list \<Rightarrow> py_error + real list" where
  "renormalize ind =
     (if ind = [] then Inr []
      else if sum_list ind = 0 then Inl ZeroDivisionError
      else Inr (map (\<lambda>x. x / sum_list ind) ind))"

fun renormalize_all :: "real list list \<Rightarrow> py_error + real list list" where
  "renormalize_all [] = Inr []"
| "renormalize_all (ind # rest) =
     (case renormalize ind of
        Inl e \<Rightarrow> Inl e
      | Inr v \<Rightarrow> (case renormalize_all rest of Inl e \<Rightarrow> Inl e | Inr vs \<Rightarrow> Inr (v # vs)))"

definition initialize :: "rng \<Rightarrow> py_error + real list list \<times> rng" where
  "initialize g =
     (let (raw, g1) = draw_vectors POPULATION_SIZE (length COMPONENT_NAMES) g
      in case renormalize_all raw of Inl e \<Rightarrow> Inl e | Inr p \<Rightarrow> Inr (p, g1))"

subsection \<open>One generation\<close>

text \<open>A scored tuple \<^verbatim>\<open>(fit, ip, cost, ind)\<close>.\<close>

type_synonym scored_individual = "real \<times> real \<times> real \<times> real list"

definition fitness_of :: "scored_individual \<Rightarrow> real" where
  "fitness_of s = fst s"

definition composition :: "scored_individual \<Rightarrow> real list" where
  "composition s = snd (snd (snd s))"

text \<open>The evaluation loop \<^verbatim>\<open>for ind in pop\<close>, appending to both lists.\<close>

fun evaluate ::
  "real list list \<Rightarrow> scored_individual list \<Rightarrow> (real \<times> real) list
     \<Rightarrow> py_error + scored_individual list \<times> (real \<times> real) list" where
  "evaluate [] sc res = Inr (sc, res)"
| "evaluate (ind # rest) sc res =
     (case calculate_fitness ind of
        Inl e \<Rightarrow> Inl e
      | Inr (fit, ip, cst) \<Rightarrow> evaluate rest (sc @ [(fit, ip, cst, ind)]) (res @ [(ip, cst)]))"

text \<open>
  \<^verbatim>\<open>scored.sort(key=lambda x: x[0], reverse=True)\<close>: descending by fitness, and stable
  (Python keeps equal keys in their original order also under \<^verbatim>\<open>reverse=True\<close>).
\<close>

definition rank :: "scored_individual list \<Rightarrow> scored_individual list" where
  "rank sc = sort_key (\<lambda>x. - fitness_of x) sc"

text \<open>\<^verbatim>\<open>[(p1[i]+p2[i])/2 for i in range(len(p1))]\<close>\<close>

definition crossover :: "real list \<Rightarrow> real list \<Rightarrow> py_error + real list" where
  "crossover p1 p2 =
     (if length p2 < length p1 then Inl IndexError
      else Inr (map (\<lambda>i. (p1 ! i + p2 ! i) / 2) [0..<length p1]))"

text \<open>\<^verbatim>\<open>child[idx] += v\<close> with Python's index rule.\<close>

definition additem :: "real list \<Rightarrow> int \<Rightarrow> real \<Rightarrow> py_error + real list" where
  "additem xs i v =
     (let n = int (length xs); j = (if i < 0 then n + i else i)
      in if 0 \<le> j \<and> j < n then Inr (xs[nat j := xs ! nat j + v]) else Inl IndexError)"

text \<open>The body of \<^verbatim>\<open>if random.random() < 0.1\<close>.\<close>

definition mutate :: "real list \<Rightarrow> rng \<Rightarrow> py_error + real list \<times> rng" where
  "mutate child g =
     (case random_randint 0 (int (length child) - 1) g of
        Inl e \<Rightarrow> Inl e
      | Inr (idx, g1) \<Rightarrow>
          (let (off, g2) = random_uniform (- 0.02) 0.02 g1
           in case additem child idx off of Inl e \<Rightarrow> Inl e | Inr c \<Rightarrow> Inr (c, g2)))"

text \<open>
  Parent selection, crossover, mutation and clamping: the child as it stands just
  before the renormalising division.
\<close>

definition breed :: "scored_individual list \<Rightarrow> rng \<Rightarrow> py_error + real list \<times> rng" where
  "breed ranked g =
     (case random_choice (take 10 ranked) g of
        Inl e \<Rightarrow> Inl e
      | Inr (s1, g1) \<Rightarrow>
     (case random_choice (take 10 ranked) g1 of
        Inl e \<Rightarrow> Inl e
      | Inr (s2, g2) \<Rightarrow>
     (case crossover (composition s1) (composition s2) of
        Inl e \<Rightarrow> Inl e
      | Inr child \<Rightarrow>
          (let (u, g3) = random_random g2
           in case (if u < 0.1 then mutate child g3 else Inr (child, g3)) of
                Inl e \<Rightarrow> Inl e
              | Inr (child', g4) \<Rightarrow> Inr (map (max 0) child', g4)))))"

text \<open>The loop \<^verbatim>\<open>while len(next_pop) < POPULATION_SIZE\<close>.\<close>

function reproduce ::
  "scored_individual list \<Rightarrow> real list list \<Rightarrow> rng \<Rightarrow> py_error + real list list \<times> rng" where
  "reproduce ranked next_pop g =
     (if length next_pop < POPULATION_SIZE then
        (case breed ranked g of
           Inl e \<Rightarrow> Inl e
         | Inr (child, g1) \<Rightarrow>
             (case renormalize child of
                Inl e \<Rightarrow> Inl e
              | Inr c \<Rightarrow> reproduce ranked (next_pop @ [c]) g1))
      else Inr (next_pop, g))"
  by pat_completeness auto
termination
  by (relation "measure (\<lambda>(ranked, next_pop, g). POPULATION_SIZE - length next_pop)") auto

declare reproduce.simps [simp del]

text \<open>
  The variables the generation loop carries. \<^verbatim>\<open>scored\<close> is unbound until the first
  iteration has run.
\<close>

record ga_state =
  pop :: "real list list"
  all_results :: "(real \<times> real) list"
  scored :: "scored_individual list option"

text \<open>
  The second half of the loop body, from the sort to the end of the \<^verbatim>\<open>while\<close> loop:
  it takes the scored list that the evaluation loop built and returns the ranked list
  and the next population.
\<close>

definition next_generation ::
  "scored_individual list \<Rightarrow> rng
     \<Rightarrow> py_error + scored_individual list \<times> real list list \<times> rng" where
  "next_generation sc g =
     (let ranked = rank sc
      in case getitem ranked 0 of
           Inl e \<Rightarrow> Inl e
         | Inr s0 \<Rightarrow>
        (case getitem ranked 1 of
           Inl e \<Rightarrow> Inl e
         | Inr s1 \<Rightarrow>
        (case reproduce ranked [composition s0, composition s1] g of
           Inl e \<Rightarrow> Inl e
         | Inr (next_pop, g1) \<Rightarrow> Inr (ranked, next_pop, g1))))"

text \<open>The whole loop body: the evaluation loop, then the rest, then \<^verbatim>\<open>pop = next_pop\<close>.\<close>

definition generation :: "ga_state \<Rightarrow> rng \<Rightarrow> py_error + ga_state \<times> rng" where
  "generation st g =
     (case evaluate (pop st) [] (all_results st) of
        Inl e \<Rightarrow> Inl e
      | Inr (sc, res) \<Rightarrow>
          (case next_generation sc g of
             Inl e \<Rightarrow> Inl e
           | Inr (ranked, next_pop, g1) \<Rightarrow>
               Inr (\<lparr>pop = next_pop, all_results = res, scored = Some ranked\<rparr>, g1)))"

text \<open>\<^verbatim>\<open>for gen in range(n)\<close>\<close>

fun ga_loop :: "nat \<Rightarrow> ga_state \<Rightarrow> rng \<Rightarrow> py_error + ga_state \<times> rng" where
  "ga_loop 0 st g = Inr (st, g)"
| "ga_loop (Suc n) st g =
     (case generation st g of Inl e \<Rightarrow> Inl e | Inr (st1, g1) \<Rightarrow> ga_loop n st1 g1)"

definition run_ga ::
  "rng \<Rightarrow> py_error + (scored_individual \<times> (real \<times> real) list) \<times> rng" where
  "run_ga g =
     (case initialize g of
        Inl e \<Rightarrow> Inl e
      | Inr (pop0, g1) \<Rightarrow>
     (case ga_loop GENERATIONS \<lparr>pop = pop0, all_results = [], scored = None\<rparr> g1 of
        Inl e \<Rightarrow> Inl e
      | Inr (st, g2) \<Rightarrow>
     (case scored st of
        None \<Rightarrow> Inl NameError
      | Some ranked \<Rightarrow>
     (case getitem ranked 0 of
        Inl e \<Rightarrow> Inl e
      | Inr best \<Rightarrow> Inr ((best, all_results st), g2)))))"

subsection \<open>The probability simplex\<close>

definition on_simplex :: "real list \<Rightarrow> bool" where
  "on_simplex v =
     (length v = length COMPONENT_NAMES \<and> list_all (\<lambda>x. 0 \<le> x) v \<and> sum_list v = 1)"

text \<open>
  The simplex with the specification's tolerance: one entry per component, every entry
  nonnegative, the sum within \<open>10\<^sup>-\<^sup>9\<close> of one.
\<close>

definition near_simplex :: "real list \<Rightarrow> bool" where
  "near_simplex v =
     (length v = length COMPONENT_NAMES \<and> list_all (\<lambda>x. 0 \<le> x) v
      \<and> \<bar>sum_list v - 1\<bar> \<le> 1 / 10 ^ 9)"

subsection \<open>Reproduction as the specification words it\<close>

text \<open>
  The specification's reproduce step, as a function of the five values drawn for one
  child: two draws that select the parents among the top 10 ranked, the draw \<open>u\<close> that
  decides mutation (below 0.1), the draw that selects the index, and the draw \<open>u'\<close> that
  gives the offset \<open>-0.02 + 0.04 * u'\<close>. Crossover is the elementwise arithmetic mean;
  repair sets every negative entry to 0. This is the child before renormalisation.
\<close>

definition spec_raw_child ::
  "scored_individual list \<Rightarrow> nat \<Rightarrow> nat \<Rightarrow> real \<Rightarrow> nat \<Rightarrow> real \<Rightarrow> real list" where
  "spec_raw_child ranked k1 k2 u k3 u' =
     (let top = take 10 ranked;
          p1 = composition (top ! (k1 mod length top));
          p2 = composition (top ! (k2 mod length top));
          mean = map2 (\<lambda>a b. (a + b) / 2) p1 p2;
          mutated = (if u < 0.1
                     then mean[k3 mod length mean := mean ! (k3 mod length mean) + (- 0.02 + 0.04 * u')]
                     else mean)
      in map (\<lambda>x. if x < 0 then 0 else x) mutated)"

text \<open>The repaired child renormalised: every entry divided by the sum.\<close>

definition spec_child ::
  "scored_individual list \<Rightarrow> nat \<Rightarrow> nat \<Rightarrow> real \<Rightarrow> nat \<Rightarrow> real \<Rightarrow> real list" where
  "spec_child ranked k1 k2 u k3 u' =
     (let c = spec_raw_child ranked k1 k2 u k3 u' in map (\<lambda>x. x / sum_list c) c)"

text \<open>
  One child as the specification words it, with the draws taken from the generator in the
  order the step names them: two draws pick the parents, one decides whether to mutate,
  and only when it does, one more picks the index and one gives the offset. The second
  component is the generator after these draws.
\<close>

definition spec_breed :: "scored_individual list \<Rightarrow> rng \<Rightarrow> real list \<times> rng" where
  "spec_breed ranked g =
     (let k1 = shd (ints g); k2 = shd (stl (ints g)); u = shd (floats g)
      in if u < 0.1
         then (spec_child ranked k1 k2 u (shd (stl (stl (ints g)))) (shd (stl (floats g))),
               \<lparr>floats = stl (stl (floats g)), ints = stl (stl (stl (ints g)))\<rparr>)
         else (spec_child ranked k1 k2 u 0 0,
               \<lparr>floats = stl (floats g), ints = stl (stl (ints g))\<rparr>))"

text \<open>The specification's reproduce step repeated \<open>n\<close> times.\<close>

fun spec_children :: "scored_individual list \<Rightarrow> nat \<Rightarrow> rng \<Rightarrow> real list list \<times> rng" where
  "spec_children ranked 0 g = ([], g)"
| "spec_children ranked (Suc n) g =
     (let (c, g1) = spec_breed ranked g; (cs, g2) = spec_children ranked n g1
      in (c # cs, g2))"

subsection \<open>Invariants of the generation loop\<close>

text \<open>
  Every candidate parent, one of the first ten ranked, lies on the simplex within the
  tolerance.
\<close>

definition parents_ok :: "scored_individual list \<Rightarrow> bool" where
  "parents_ok ranked =
     (ranked \<noteq> [] \<and> list_all (\<lambda>s. near_simplex (composition s)) (take 10 ranked))"

text \<open>A scored tuple holds what the evaluator returns for its composition.\<close>

definition consistent :: "scored_individual \<Rightarrow> bool" where
  "consistent s = (case s of (fit, ip, cst, ind) \<Rightarrow> calculate_fitness ind = Inr (fit, ip, cst))"

text \<open>The pair \<^verbatim>\<open>(ip, cost)\<close> that the evaluation loop appends for a scored tuple.\<close>

definition history_entry :: "scored_individual \<Rightarrow> real \<times> real" where
  "history_entry s = (case s of (fit, ip, cst, ind) \<Rightarrow> (ip, cst))"

text \<open>The population has its fixed size and every member lies on the simplex.\<close>

definition pop_ok :: "ga_state \<Rightarrow> bool" where
  "pop_ok st = (length (pop st) = POPULATION_SIZE \<and> list_all on_simplex (pop st))"

text \<open>
  After a generation: the ranked list is bound and nonempty, its tuples are consistent,
  the first member of the new population is the composition at rank 0, and no tuple of
  the ranked list has a fitness above the one at rank 0.
\<close>

definition elite_ok :: "ga_state \<Rightarrow> bool" where
  "elite_ok st =
     (case scored st of
        None \<Rightarrow> False
      | Some ranked \<Rightarrow>
          ranked \<noteq> [] \<and> list_all consistent ranked \<and> pop st \<noteq> []
          \<and> pop st ! 0 = composition (ranked ! 0)
          \<and> list_all (\<lambda>s. fitness_of s \<le> fitness_of (ranked ! 0)) ranked)"

text \<open>The loop variables before the first generation.\<close>

definition initial_state :: "real list list \<Rightarrow> ga_state" where
  "initial_state pop0 = \<lparr>pop = pop0, all_results = [], scored = None\<rparr>"

subsection \<open>Concrete generator states\<close>

text \<open>
  States of the generator used to evaluate the model: every draw one half; every draw
  zero (in reproduction these are the draws that pick rank 0 twice and mutate index 0 by
  the offset \<open>-0.02\<close>).
\<close>

definition rng_half :: rng where
  "rng_half = \<lparr>floats = sconst (1 / 2), ints = sconst 0\<rparr>"

definition rng_zero :: rng where
  "rng_zero = \<lparr>floats = sconst 0, ints = sconst 0\<rparr>"


section \<open>Properties of the synergy module and the fitness evaluator\<close>

lemma index_of_BHT: "index_of COMPONENT_NAMES ''BHT_Antioxidant'' = Inr 3"
  by (simp add: COMPONENT_NAMES_def COMPONENTS_def)

lemma index_of_Palmitate: "index_of COMPONENT_NAMES ''Methyl_Palmitate'' = Inr 1"
  by (simp add: COMPONENT_NAMES_def COMPONENTS_def)

lemma length_COMPONENT_NAMES: "length COMPONENT_NAMES = 4"
  by (simp add: COMPONENT_NAMES_def COMPONENTS_def)

lemma accumulate_four:
  "accumulate (enumerate 0 COMPONENT_NAMES) [a, b, c, d] (0, 0, 0) =
     Inr (a * 5 + b * 12 + c * 1,
          a * 4.5 + b * 6 + c * 4 + d * 10,
          a * 1.2 + b * 1.5 + c * 1.3 + d * 15)"
  by (simp add: COMPONENT_NAMES_def COMPONENTS_def getitem_def getkey_def)

lemma calculate_fitness_four:
  "calculate_fitness [a, b, c, d] =
     (case calculate_stability d (a * 5 + b * 12 + c * 1) of
        Inl e \<Rightarrow> Inl e
      | Inr total_IP \<Rightarrow>
          Inr (total_IP * 2 - (a * 1.2 + b * 1.5 + c * 1.3 + d * 15) * 10
                 - penalties total_IP (a * 4.5 + b * 6 + c * 4 + d * 10) b d,
               total_IP, a * 1.2 + b * 1.5 + c * 1.3 + d * 15))"
  by (simp add: calculate_fitness_def index_of_BHT index_of_Palmitate accumulate_four
      getitem_def Let_def split: sum.splits)

lemma length_four: "length xs = 4 \<Longrightarrow> \<exists>a b c d. xs = [a, b, c, d]"
  by (cases xs; simp; rename_tac ys; case_tac ys; simp; rename_tac zs; case_tac zs; simp;
      rename_tac ws; case_tac ws; simp)

lemma calculate_stability_nonneg:
  "0 \<le> x \<Longrightarrow> calculate_stability x b = Inr (b + 12 * (x / (0.0005 + x)))"
  by (simp add: calculate_stability_def Let_def)

lemma calculate_fitness_total:
  assumes "length individual = 4" and "0 \<le> individual ! 3"
  shows "\<exists>fitness total_IP cst. calculate_fitness individual = Inr (fitness, total_IP, cst)"
proof -
  from assms(1) obtain a b c d where ind: "individual = [a, b, c, d]"
    using length_four by blast
  with assms(2) have "0 \<le> d" by simp
  then show ?thesis
    unfolding ind calculate_fitness_four by (simp add: calculate_stability_nonneg)
qed

text \<open>
  C1: on the composition \<open>[0.4, 0.3, 0.2, 0.1]\<close> the accumulation loop gives base
  stability 5.8, viscosity 5.4 and cost 2.69; the synergy module gives
  \<open>5.8 + 12 * (0.1 / 0.1005)\<close>; of the four guards only the solubility one holds (the
  palmitate fraction equals the cap 0.30 and the comparison is strict), so the penalty is
  \<open>(0.1 - 0.002) * 500 = 49\<close>; the fitness is twice the total stability minus ten times
  the cost minus 49.
\<close>

theorem C1_worked_example:
  "accumulate (enumerate 0 COMPONENT_NAMES) [0.4, 0.3, 0.2, 0.1] (0.0, 0.0, 0.0)
     = Inr (5.8, 5.4, 2.69)
   \<and> calculate_stability 0.1 5.8 = Inr (5.8 + 12 * (0.1 / 0.1005))
   \<and> \<not> stability_shortfall (5.8 + 12 * (0.1 / 0.1005))
   \<and> \<not> viscosity_excess 5.4
   \<and> \<not> palmitate_excess 0.3
   \<and> solubility_excess 0.1
   \<and> penalties (5.8 + 12 * (0.1 / 0.1005)) 5.4 0.3 0.1 = (0.1 - 0.002) * 500
   \<and> penalties (5.8 + 12 * (0.1 / 0.1005)) 5.4 0.3 0.1 = 49
   \<and> calculate_fitness [0.4, 0.3, 0.2, 0.1]
       = Inr ((5.8 + 12 * (0.1 / 0.1005)) * 2.0 - 2.69 * 10.0 - 49,
              5.8 + 12 * (0.1 / 0.1005), 2.69)
   \<and> \<bar>(5.8 + 12 * (0.1 / 0.1005)) - 17.74\<bar> < (0.005 :: real)
   \<and> \<bar>((5.8 + 12 * (0.1 / 0.1005)) * 2.0 - 2.69 * 10.0 - 49) - (- 40.42)\<bar> < (0.005 :: real)"
  by (simp add: accumulate_four calculate_fitness_four calculate_stability_def Let_def
      penalties_def stability_shortfall_def viscosity_excess_def palmitate_excess_def
      solubility_excess_def BHT_SOLUBILITY_MAX_def)

text \<open>
  C7: the evaluator is a function of the composition alone (equal compositions give
  equal results), and on a composition with one entry per registered component, all
  entries nonnegative and summing to one, it returns a triple and raises nothing.
\<close>

theorem C7_fitness_pure_total:
  assumes "length individual = length COMPONENT_NAMES"
    and "\<forall>x \<in> set individual. 0 \<le> x"
    and "sum_list individual = 1"
  shows "(\<exists>fitness total_IP cst. calculate_fitness individual = Inr (fitness, total_IP, cst))
         \<and> (\<forall>other. other = individual \<longrightarrow> calculate_fitness other = calculate_fitness individual)"
proof -
  have len: "length individual = 4" using assms(1) by (simp add: length_COMPONENT_NAMES)
  then have "individual ! 3 \<in> set individual" by simp
  with assms(2) have "0 \<le> individual ! 3" by blast
  with len show ?thesis using calculate_fitness_total by simp
qed

theorem C7_fitness_pure_total_witness:
  "length [0.4, 0.3, 0.2, 0.1 :: real] = length COMPONENT_NAMES
   \<and> list_all (\<lambda>x. 0 \<le> x) [0.4, 0.3, 0.2, 0.1 :: real]
   \<and> sum_list [0.4, 0.3, 0.2, 0.1 :: real] = 1
   \<and> (\<exists>fitness total_IP cst.
         calculate_fitness [0.4, 0.3, 0.2, 0.1] = Inr (fitness, total_IP, cst))"
  using C7_fitness_pure_total [of "[0.4, 0.3, 0.2, 0.1]"]
  by (simp add: length_COMPONENT_NAMES)

subsection \<open>Rounding to binary64\<close>

























































section \<open>Properties of the genetic optimiser\<close>

lemma floats_ok_stl: "floats_ok g \<Longrightarrow> floats_ok (g\<lparr>floats := stl (floats g)\<rparr>)"
  by (auto simp: floats_ok_def dest: stl_sset)

lemma floats_ok_ints: "floats_ok g \<Longrightarrow> floats_ok (g\<lparr>ints := s\<rparr>)"
  by (simp add: floats_ok_def)

lemma random_random_ok:
  assumes "floats_ok g" and "random_random g = (u, g')"
  shows "0 \<le> u \<and> u < 1 \<and> floats_ok g'"
proof -
  have "shd (floats g) \<in> sset (floats g)" by (rule shd_sset)
  with assms show ?thesis
    by (auto simp: random_random_def floats_ok_stl) (auto simp: floats_ok_def)
qed

lemma randbelow_ok:
  assumes "randbelow n g = (k, g')"
  shows "(floats_ok g \<longrightarrow> floats_ok g') \<and> (0 < n \<longrightarrow> k < n)"
  using assms by (auto simp: randbelow_def floats_ok_ints)

lemma draw_floats_ok:
  "floats_ok g \<Longrightarrow> draw_floats n g = (us, g') \<Longrightarrow>
     length us = n \<and> list_all (\<lambda>x. 0 \<le> x) us \<and> floats_ok g'"
proof (induction n arbitrary: g us g')
  case 0
  then show ?case by simp
next
  case (Suc n)
  obtain u g1 where r: "random_random g = (u, g1)" by (cases "random_random g")
  obtain vs g2 where d: "draw_floats n g1 = (vs, g2)" by (cases "draw_floats n g1")
  from random_random_ok [OF Suc.prems(1) r] have u: "0 \<le> u" and ok1: "floats_ok g1" by simp_all
  from Suc.IH [OF ok1 d] have "length vs = n \<and> list_all (\<lambda>x. 0 \<le> x) vs \<and> floats_ok g2" .
  with Suc.prems(2) r d u show ?case by auto
qed

lemma draw_vectors_ok:
  "floats_ok g \<Longrightarrow> draw_vectors n m g = (vs, g') \<Longrightarrow>
     length vs = n \<and> list_all (\<lambda>v. length v = m \<and> list_all (\<lambda>x. 0 \<le> x) v) vs \<and> floats_ok g'"
proof (induction n arbitrary: g vs g')
  case 0
  then show ?case by simp
next
  case (Suc n)
  obtain v g1 where r: "draw_floats m g = (v, g1)" by (cases "draw_floats m g")
  obtain ws g2 where d: "draw_vectors n m g1 = (ws, g2)" by (cases "draw_vectors n m g1")
  from draw_floats_ok [OF Suc.prems(1) r]
  have v: "length v = m" "list_all (\<lambda>x. 0 \<le> x) v" and ok1: "floats_ok g1" by simp_all
  from Suc.IH [OF ok1 d] Suc.prems(2) r d v show ?case by auto
qed

lemma sum_list_divide: "sum_list (map (\<lambda>x. x / c) v) = sum_list v / (c::real)"
  by (induction v) (simp_all add: add_divide_distrib)

lemma sum_list_nonneg_real: "list_all (\<lambda>x. 0 \<le> x) v \<Longrightarrow> 0 \<le> sum_list (v :: real list)"
  by (induction v) simp_all

lemma renormalize_simplex:
  assumes "length v = length COMPONENT_NAMES" and "list_all (\<lambda>x. 0 \<le> x) v" and "sum_list v \<noteq> 0"
  shows "\<exists>w. renormalize v = Inr w \<and> on_simplex w"
proof -
  have ne: "v \<noteq> []" using assms(1) by (auto simp: length_COMPONENT_NAMES)
  have pos: "0 < sum_list v" using sum_list_nonneg_real [OF assms(2)] assms(3) by simp
  have "list_all (\<lambda>x. 0 \<le> x) (map (\<lambda>x. x / sum_list v) v)"
    using assms(2) pos by (simp add: list_all_iff)
  then show ?thesis
    using ne assms(1,3) by (simp add: renormalize_def on_simplex_def sum_list_divide)
qed

lemma renormalize_Inr_simplex:
  assumes "renormalize v = Inr w" and "length v = length COMPONENT_NAMES"
    and "list_all (\<lambda>x. 0 \<le> x) v"
  shows "on_simplex w"
proof -
  have ne: "v \<noteq> []" using assms(2) by (auto simp: length_COMPONENT_NAMES)
  with assms(1) have "sum_list v \<noteq> 0" by (auto simp: renormalize_def split: if_splits)
  from renormalize_simplex [OF assms(2,3) this] assms(1) show ?thesis by simp
qed

lemma renormalize_all_simplex:
  "renormalize_all raw = Inr p \<Longrightarrow>
   list_all (\<lambda>v. length v = length COMPONENT_NAMES \<and> list_all (\<lambda>x. 0 \<le> x) v) raw \<Longrightarrow>
   length p = length raw \<and> list_all on_simplex p"
proof (induction raw arbitrary: p)
  case Nil
  then show ?case by simp
next
  case (Cons v raw)
  from Cons.prems(1) obtain w ws where w: "renormalize v = Inr w"
    and ws: "renormalize_all raw = Inr ws" and p: "p = w # ws"
    by (auto split: sum.splits)
  from Cons.prems(2) have "on_simplex w" using renormalize_Inr_simplex [OF w] by simp
  moreover from Cons.IH [OF ws] Cons.prems(2) have "length ws = length raw \<and> list_all on_simplex ws" by simp
  ultimately show ?case using p by simp
qed

lemma initialize_ok:
  assumes "floats_ok g" and "initialize g = Inr (p, g1)"
  shows "length p = POPULATION_SIZE \<and> list_all on_simplex p \<and> floats_ok g1"
proof -
  obtain raw g' where d: "draw_vectors POPULATION_SIZE (length COMPONENT_NAMES) g = (raw, g')"
    by (cases "draw_vectors POPULATION_SIZE (length COMPONENT_NAMES) g")
  with assms(2) have r: "renormalize_all raw = Inr p" and g1: "g1 = g'"
    by (auto simp: initialize_def split: sum.splits)
  from draw_vectors_ok [OF assms(1) d] renormalize_all_simplex [OF r] g1
  show ?thesis by simp
qed


lemma on_simplexD:
  "on_simplex v \<Longrightarrow> length v = 4 \<and> list_all (\<lambda>x. 0 \<le> x) v \<and> sum_list v = 1"
  by (simp add: on_simplex_def length_COMPONENT_NAMES)

lemma near_simplexD:
  "near_simplex v \<Longrightarrow>
     length v = 4 \<and> list_all (\<lambda>x. 0 \<le> x) v \<and> \<bar>sum_list v - 1\<bar> \<le> 1 / 10 ^ 9"
  by (simp add: near_simplex_def length_COMPONENT_NAMES)

lemma on_simplex_near: "on_simplex v \<Longrightarrow> near_simplex v"
  by (simp add: on_simplex_def near_simplex_def)

lemma tolerance_mean:
  "\<bar>a - 1\<bar> \<le> t \<Longrightarrow> \<bar>b - 1\<bar> \<le> t \<Longrightarrow> \<bar>(a + b) / 2 - 1\<bar> \<le> (t::real)"
  by (simp add: abs_le_iff) (simp add: field_simps)

lemma tolerance_offset:
  "\<bar>s - 1\<bar> \<le> t \<Longrightarrow> 0 \<le> w \<Longrightarrow> 1 - d - t \<le> s + (- d + (w::real))"
  by (simp add: abs_le_iff)

lemma tolerance_plain:
  "\<bar>s - 1\<bar> \<le> t \<Longrightarrow> 0 \<le> d \<Longrightarrow> 1 - d - t \<le> (s::real)"
  by (simp add: abs_le_iff)

lemma crossover_near:
  assumes "near_simplex p1" and "near_simplex p2"
  shows "crossover p1 p2 = Inr (map2 (\<lambda>a b. (a + b) / 2) p1 p2)
         \<and> length (map2 (\<lambda>a b. (a + b) / 2) p1 p2) = 4
         \<and> \<bar>sum_list (map2 (\<lambda>a b. (a + b) / 2) p1 p2) - 1\<bar> \<le> 1 / 10 ^ 9"
proof -
  from near_simplexD [OF assms(1)] obtain a1 b1 c1 d1 where p1: "p1 = [a1, b1, c1, d1]"
    using length_four by blast
  from near_simplexD [OF assms(2)] obtain a2 b2 c2 d2 where p2: "p2 = [a2, b2, c2, d2]"
    using length_four by blast
  have up: "[0..<4] = [0, 1, 2, 3]" by (simp add: upt_rec)
  have mean: "sum_list (map2 (\<lambda>a b. (a + b) / 2) p1 p2) = (sum_list p1 + sum_list p2) / 2"
    unfolding p1 p2 by (simp add: field_simps)
  from near_simplexD [OF assms(1)] have a1: "\<bar>sum_list p1 - 1\<bar> \<le> 1 / 10 ^ 9" by blast
  from near_simplexD [OF assms(2)] have a2: "\<bar>sum_list p2 - 1\<bar> \<le> 1 / 10 ^ 9" by blast
  from a1 a2 have "\<bar>(sum_list p1 + sum_list p2) / 2 - 1\<bar> \<le> 1 / 10 ^ 9"
    by (rule tolerance_mean)
  then show ?thesis unfolding mean unfolding p1 p2 by (simp add: crossover_def up)
qed

lemma sum_list_update_real:
  "i < length xs \<Longrightarrow> sum_list (xs[i := xs ! i + v]) = sum_list xs + (v::real)"
  by (induction xs arbitrary: i) (auto split: nat.splits)

lemma random_choice_eq:
  "xs \<noteq> [] \<Longrightarrow>
   random_choice xs g = Inr (xs ! (shd (ints g) mod length xs), g\<lparr>ints := stl (ints g)\<rparr>)"
  by (simp add: random_choice_def randbelow_def)

lemma mutate_eq:
  assumes "length child = 4"
  shows "mutate child g =
           Inr (child[shd (ints g) mod length child
                        := child ! (shd (ints g) mod length child)
                           + (- 0.02 + 0.04 * shd (floats g))],
                g\<lparr>ints := stl (ints g), floats := stl (floats g)\<rparr>)"
proof -
  have "shd (ints g) mod 4 < 4" by simp
  then show ?thesis using assms
    by (simp add: mutate_def random_randint_def random_uniform_def random_random_def
        randbelow_def additem_def Let_def)
qed

lemma clamp_eq: "map (max 0) xs = map (\<lambda>x. if x < 0 then 0 else x) (xs :: real list)"
  by (simp add: max_def not_less)

lemma clamp_nonneg: "list_all (\<lambda>x. 0 \<le> x) (map (\<lambda>x. if x < 0 then 0 else x) (xs :: real list))"
  by (induction xs) auto

lemma clamp_sum: "sum_list xs \<le> sum_list (map (\<lambda>x. if x < 0 then 0 else x) (xs :: real list))"
  by (induction xs) auto

lemma spec_raw_child_props:
  assumes "parents_ok ranked" and "0 \<le> u'"
  shows "length (spec_raw_child ranked k1 k2 u k3 u') = 4
         \<and> list_all (\<lambda>x. 0 \<le> x) (spec_raw_child ranked k1 k2 u k3 u')
         \<and> 0.98 - 1 / 10 ^ 9 \<le> sum_list (spec_raw_child ranked k1 k2 u k3 u')"
proof -
  define top where "top = take 10 ranked"
  define p1 where "p1 = composition (top ! (k1 mod length top))"
  define p2 where "p2 = composition (top ! (k2 mod length top))"
  define mean where "mean = map2 (\<lambda>a b. (a + b) / 2) p1 p2"
  define mutated where "mutated = (if u < 0.1
        then mean[k3 mod length mean := mean ! (k3 mod length mean) + (- 0.02 + 0.04 * u')]
        else mean)"
  have raw: "spec_raw_child ranked k1 k2 u k3 u' = map (\<lambda>x. if x < 0 then 0 else x) mutated"
    by (simp add: spec_raw_child_def Let_def top_def p1_def p2_def mean_def mutated_def)
  from assms(1) have ne: "top \<noteq> []"
    and sx: "\<And>s. s \<in> set top \<Longrightarrow> near_simplex (composition s)"
    by (auto simp: parents_ok_def list_all_iff top_def)
  have "top ! (k1 mod length top) \<in> set top" "top ! (k2 mod length top) \<in> set top"
    using ne by simp_all
  then have "near_simplex p1" "near_simplex p2" by (simp_all add: p1_def p2_def sx)
  from crossover_near [OF this] have len: "length mean = 4"
    and sum: "\<bar>sum_list mean - 1\<bar> \<le> 1 / 10 ^ 9"
    by (simp_all add: mean_def)
  have lenm: "length mutated = 4" using len by (simp add: mutated_def)
  have "k3 mod length mean < length mean" using len by simp
  then have upd: "sum_list (mean[k3 mod length mean := mean ! (k3 mod length mean) + (- 0.02 + 0.04 * u')])
               = sum_list mean + (- 0.02 + 0.04 * u')"
    by (simp add: sum_list_update_real)
  have w: "(0::real) \<le> 0.04 * u'" using assms(2) by simp
  have c98: "(1::real) - 0.02 = 0.98" by simp
  have "1 - 0.02 - 1 / 10 ^ 9 \<le> sum_list mutated"
  proof (cases "u < 0.1")
    case True
    then have "sum_list mutated = sum_list mean + (- 0.02 + 0.04 * u')"
      using upd by (simp only: mutated_def if_True)
    then show ?thesis using tolerance_offset [OF sum w, of "0.02"] by simp
  next
    case False
    then have "sum_list mutated = sum_list mean" by (simp only: mutated_def if_False)
    then show ?thesis using tolerance_plain [OF sum, of "0.02"] by simp
  qed
  then have "0.98 - 1 / 10 ^ 9 \<le> sum_list mutated" unfolding c98 .
  also have "\<dots> \<le> sum_list (map (\<lambda>x. if x < 0 then 0 else x) mutated)" by (rule clamp_sum)
  finally show ?thesis using lenm clamp_nonneg [of mutated] by (simp add: raw)
qed

lemma renormalize_spec:
  assumes "parents_ok ranked" and "0 \<le> u'"
  shows "renormalize (spec_raw_child ranked k1 k2 u k3 u') = Inr (spec_child ranked k1 k2 u k3 u')
         \<and> on_simplex (spec_child ranked k1 k2 u k3 u')"
proof -
  let ?c = "spec_raw_child ranked k1 k2 u k3 u'"
  from spec_raw_child_props [OF assms, of k1 k2 u k3]
  have len: "length ?c = 4" and nn: "list_all (\<lambda>x. 0 \<le> x) ?c"
    and sum: "0.98 - 1 / 10 ^ 9 \<le> sum_list ?c"
    by simp_all
  from sum have nz: "sum_list ?c \<noteq> 0" by auto
  from len have ne: "?c \<noteq> []" by auto
  have r: "renormalize ?c = Inr (spec_child ranked k1 k2 u k3 u')"
    using ne nz by (simp add: renormalize_def spec_child_def Let_def)
  from renormalize_simplex [OF _ nn nz] len r show ?thesis
    by (simp add: length_COMPONENT_NAMES)
qed

lemma floats_ok_fields: "floats_ok g = (\<forall>u \<in> sset (floats g). 0 \<le> u \<and> u < 1)"
  by (simp add: floats_ok_def)

lemma floats_ok_shd: "floats_ok g \<Longrightarrow> 0 \<le> shd (floats g) \<and> shd (floats g) < 1"
  using shd_sset [of "floats g"] by (auto simp: floats_ok_def)

lemma floats_ok_shd_stl:
  "floats_ok g \<Longrightarrow> 0 \<le> shd (stl (floats g)) \<and> shd (stl (floats g)) < 1"
  using shd_sset [of "stl (floats g)"] stl_sset [of _ "floats g"] by (auto simp: floats_ok_def)

text \<open>
  The draws of one child and what the source does with them: the returned child before
  the division is the specification's, and so is the generator afterwards.
\<close>

lemma breed_spec:
  assumes "floats_ok g" and "parents_ok ranked"
  shows "\<exists>raw. breed ranked g = Inr (raw, snd (spec_breed ranked g))
           \<and> 0.98 - 1 / 10 ^ 9 \<le> sum_list raw
           \<and> renormalize raw = Inr (fst (spec_breed ranked g))
           \<and> on_simplex (fst (spec_breed ranked g))
           \<and> floats_ok (snd (spec_breed ranked g))"
proof -
  define top where "top = take 10 ranked"
  define k1 where "k1 = shd (ints g)"
  define k2 where "k2 = shd (stl (ints g))"
  define u where "u = shd (floats g)"
  define k3 where "k3 = shd (stl (stl (ints g)))"
  define u' where "u' = shd (stl (floats g))"
  from assms(2) have ne: "top \<noteq> []"
    and sx: "\<And>s. s \<in> set top \<Longrightarrow> near_simplex (composition s)"
    by (auto simp: parents_ok_def list_all_iff top_def)
  define p1 where "p1 = composition (top ! (k1 mod length top))"
  define p2 where "p2 = composition (top ! (k2 mod length top))"
  define mean where "mean = map2 (\<lambda>a b. (a + b) / 2) p1 p2"
  have "top ! (k1 mod length top) \<in> set top" "top ! (k2 mod length top) \<in> set top"
    using ne by simp_all
  then have "near_simplex p1" "near_simplex p2" by (simp_all add: p1_def p2_def sx)
  from crossover_near [OF this] have cr: "crossover p1 p2 = Inr mean" and len: "length mean = 4"
    by (simp_all add: mean_def)
  have raw: "\<And>k u'. spec_raw_child ranked k1 k2 u k u' =
      map (\<lambda>x. if x < 0 then 0 else x)
        (if u < 0.1
         then mean[k mod length mean := mean ! (k mod length mean) + (- 0.02 + 0.04 * u')]
         else mean)"
    unfolding spec_raw_child_def Let_def top_def p1_def p2_def mean_def by (rule refl)
  have u'0: "0 \<le> u'" using floats_ok_shd_stl [OF assms(1)] by (simp add: u'_def)
  have c1: "random_choice top g = Inr (top ! (k1 mod length top), g\<lparr>ints := stl (ints g)\<rparr>)"
    using ne by (simp add: random_choice_eq k1_def)
  have c2: "random_choice top (g\<lparr>ints := stl (ints g)\<rparr>)
              = Inr (top ! (k2 mod length top), g\<lparr>ints := stl (stl (ints g))\<rparr>)"
    using ne by (simp add: random_choice_eq k2_def)
  have rr: "random_random (g\<lparr>ints := stl (stl (ints g))\<rparr>)
              = (u, g\<lparr>ints := stl (stl (ints g)), floats := stl (floats g)\<rparr>)"
    by (simp add: random_random_def u_def)
  have ok_any: "\<And>a b. (\<forall>x \<in> sset a. 0 \<le> x \<and> x < 1) \<Longrightarrow> floats_ok \<lparr>floats = a, ints = b\<rparr>"
    by (simp add: floats_ok_def)
  have in1: "\<forall>x \<in> sset (stl (floats g)). 0 \<le> x \<and> x < 1"
    using assms(1) by (auto simp: floats_ok_def dest: stl_sset)
  then have in2: "\<forall>x \<in> sset (stl (stl (floats g))). 0 \<le> x \<and> x < 1"
    by (auto dest: stl_sset)
  show ?thesis
  proof (cases "u < 0.1")
    case True
    have sb: "spec_breed ranked g =
        (spec_child ranked k1 k2 u k3 u',
         \<lparr>floats = stl (stl (floats g)), ints = stl (stl (stl (ints g)))\<rparr>)"
      using True by (simp add: spec_breed_def Let_def k1_def k2_def u_def k3_def u'_def)
    have m: "mutate mean (g\<lparr>ints := stl (stl (ints g)), floats := stl (floats g)\<rparr>)
               = Inr (mean[k3 mod length mean := mean ! (k3 mod length mean) + (- 0.02 + 0.04 * u')],
                      \<lparr>floats = stl (stl (floats g)), ints = stl (stl (stl (ints g)))\<rparr>)"
      by (simp add: mutate_eq [OF len] k3_def u'_def)
    have "breed ranked g = Inr (spec_raw_child ranked k1 k2 u k3 u',
         \<lparr>floats = stl (stl (floats g)), ints = stl (stl (stl (ints g)))\<rparr>)"
      unfolding raw using c1 c2 cr rr True m
      by (simp add: breed_def clamp_eq
          top_def [symmetric] p1_def [symmetric] p2_def [symmetric])
    then show ?thesis
      using spec_raw_child_props [OF assms(2) u'0, of k1 k2 u k3]
        renormalize_spec [OF assms(2) u'0, of k1 k2 u k3] ok_any [OF in2]
      by (simp add: sb)
  next
    case False
    have sb: "spec_breed ranked g =
        (spec_child ranked k1 k2 u 0 0,
         \<lparr>floats = stl (floats g), ints = stl (stl (ints g))\<rparr>)"
      using False by (simp add: spec_breed_def Let_def k1_def k2_def u_def)
    have st: "g\<lparr>ints := stl (stl (ints g)), floats := stl (floats g)\<rparr>
                = \<lparr>floats = stl (floats g), ints = stl (stl (ints g))\<rparr>"
      by (cases g) simp
    have "breed ranked g = Inr (spec_raw_child ranked k1 k2 u 0 0,
         \<lparr>floats = stl (floats g), ints = stl (stl (ints g))\<rparr>)"
      unfolding raw using c1 c2 cr rr False st
      by (simp add: breed_def clamp_eq
          top_def [symmetric] p1_def [symmetric] p2_def [symmetric])
    then show ?thesis
      using spec_raw_child_props [OF assms(2), of 0 k1 k2 u 0]
        renormalize_spec [OF assms(2), of 0 k1 k2 u 0] ok_any [OF in1]
      by (simp add: sb)
  qed
qed

lemma spec_children_length: "length (fst (spec_children ranked n g)) = n"
  by (induction n arbitrary: g) (simp_all add: case_prod_unfold Let_def)

lemma reproduce_ok:
  "floats_ok g \<Longrightarrow> parents_ok ranked \<Longrightarrow> length next_pop \<le> POPULATION_SIZE \<Longrightarrow>
   reproduce ranked next_pop g =
     Inr (next_pop @ fst (spec_children ranked (POPULATION_SIZE - length next_pop) g),
          snd (spec_children ranked (POPULATION_SIZE - length next_pop) g))
   \<and> floats_ok (snd (spec_children ranked (POPULATION_SIZE - length next_pop) g))
   \<and> list_all on_simplex (fst (spec_children ranked (POPULATION_SIZE - length next_pop) g))"
proof (induction ranked next_pop g rule: reproduce.induct)
  case (1 ranked next_pop g)
  show ?case
  proof (cases "length next_pop < POPULATION_SIZE")
    case True
    from breed_spec [OF "1.prems"(1,2)] obtain raw
      where b: "breed ranked g = Inr (raw, snd (spec_breed ranked g))"
        and r: "renormalize raw = Inr (fst (spec_breed ranked g))"
        and c: "on_simplex (fst (spec_breed ranked g))"
        and ok1: "floats_ok (snd (spec_breed ranked g))" by blast
    define c1 where "c1 = fst (spec_breed ranked g)"
    define g1 where "g1 = snd (spec_breed ranked g)"
    have n: "POPULATION_SIZE - length next_pop = Suc (POPULATION_SIZE - length (next_pop @ [c1]))"
      using True by simp
    have len': "length (next_pop @ [c1]) \<le> POPULATION_SIZE" using True by simp
    note IH = "1.IH" [OF True b refl r ok1 "1.prems"(2), folded c1_def g1_def, OF len']
    have sc: "spec_children ranked (POPULATION_SIZE - length next_pop) g =
        (c1 # fst (spec_children ranked (POPULATION_SIZE - length (next_pop @ [c1])) g1),
         snd (spec_children ranked (POPULATION_SIZE - length (next_pop @ [c1])) g1))"
      unfolding n by (simp add: case_prod_unfold Let_def c1_def g1_def)
    have "reproduce ranked next_pop g = reproduce ranked (next_pop @ [c1]) g1"
      using True b r by (subst reproduce.simps) (simp add: c1_def g1_def)
    then show ?thesis using IH c unfolding sc by (simp add: c1_def)
  next
    case False
    have "reproduce ranked next_pop g = Inr (next_pop, g)"
      using False by (subst reproduce.simps) simp
    moreover have "POPULATION_SIZE - length next_pop = 0" using False by simp
    ultimately show ?thesis using "1.prems"(1) by simp
  qed
qed

lemma on_simplex_fitness:
  assumes "on_simplex ind"
  shows "\<exists>fit ip cst. calculate_fitness ind = Inr (fit, ip, cst)"
proof -
  from on_simplexD [OF assms] have len: "length ind = 4" and nn: "list_all (\<lambda>x. 0 \<le> x) ind"
    by simp_all
  from len have "ind ! 3 \<in> set ind" by simp
  with nn have "0 \<le> ind ! 3" by (simp add: list_all_iff)
  with len show ?thesis by (rule calculate_fitness_total)
qed

lemma evaluate_ok:
  "list_all on_simplex p \<Longrightarrow>
   \<exists>new. evaluate p sc res = Inr (sc @ new, res @ map history_entry new)
        \<and> map composition new = p \<and> list_all consistent new"
proof (induction p arbitrary: sc res)
  case Nil
  then show ?case by simp
next
  case (Cons ind p)
  from Cons.prems have ind: "on_simplex ind" and p: "list_all on_simplex p" by simp_all
  from on_simplex_fitness [OF ind] obtain fit ip cst
    where f: "calculate_fitness ind = Inr (fit, ip, cst)" by blast
  from Cons.IH [OF p, of "sc @ [(fit, ip, cst, ind)]" "res @ [(ip, cst)]"] obtain new
    where e: "evaluate p (sc @ [(fit, ip, cst, ind)]) (res @ [(ip, cst)])
                = Inr ((sc @ [(fit, ip, cst, ind)]) @ new, (res @ [(ip, cst)]) @ map history_entry new)"
      and m: "map composition new = p" and c: "list_all consistent new" by blast
  have "evaluate (ind # p) sc res
          = Inr (sc @ ((fit, ip, cst, ind) # new),
                 res @ map history_entry ((fit, ip, cst, ind) # new))"
    using f e by (simp add: history_entry_def)
  moreover have "map composition ((fit, ip, cst, ind) # new) = ind # p"
    using m by (simp add: composition_def)
  moreover have "list_all consistent ((fit, ip, cst, ind) # new)"
    using c f by (simp add: consistent_def)
  ultimately show ?case by (intro exI [of _ "(fit, ip, cst, ind) # new"] conjI)
qed

lemma rank_set: "set (rank sc) = set sc" and rank_length: "length (rank sc) = length sc"
  by (simp_all add: rank_def)

lemma sorted_hd_le:
  "sorted (map f xs) \<Longrightarrow> x \<in> set xs \<Longrightarrow> f (hd xs) \<le> (f x :: real)"
  by (cases xs) auto

lemma rank_hd_best:
  assumes "s \<in> set sc"
  shows "fitness_of s \<le> fitness_of (rank sc ! 0)"
proof -
  have "sorted (map (\<lambda>x. - fitness_of x) (rank sc))" by (simp add: rank_def)
  moreover have in_rank: "s \<in> set (rank sc)" using assms by (simp add: rank_set)
  ultimately have "- fitness_of (hd (rank sc)) \<le> - fitness_of s" by (rule sorted_hd_le)
  moreover have "rank sc \<noteq> []" using in_rank by auto
  ultimately show ?thesis by (simp add: hd_conv_nth)
qed

lemma next_generation_ok:
  assumes "floats_ok g" and "2 \<le> length sc"
    and "list_all (\<lambda>s. near_simplex (composition s)) sc"
  shows "next_generation sc g =
           Inr (rank sc,
                composition (rank sc ! 0) # composition (rank sc ! 1)
                  # fst (spec_children (rank sc) (POPULATION_SIZE - 2) g),
                snd (spec_children (rank sc) (POPULATION_SIZE - 2) g))
         \<and> floats_ok (snd (spec_children (rank sc) (POPULATION_SIZE - 2) g))
         \<and> list_all on_simplex (fst (spec_children (rank sc) (POPULATION_SIZE - 2) g))"
proof -
  have lr: "2 \<le> length (rank sc)" using assms(2) by (simp add: rank_length)
  then have ne: "rank sc \<noteq> []" by auto
  have "\<And>s. s \<in> set (take 10 (rank sc)) \<Longrightarrow> near_simplex (composition s)"
    using assms(3) by (auto simp: list_all_iff rank_set dest: in_set_takeD)
  then have par: "parents_ok (rank sc)" using ne by (simp add: parents_ok_def list_all_iff)
  have "length [composition (rank sc ! 0), composition (rank sc ! 1)] \<le> POPULATION_SIZE"
    by (simp add: POPULATION_SIZE_def)
  from reproduce_ok [OF assms(1) par this]
  have r: "reproduce (rank sc) [composition (rank sc ! 0), composition (rank sc ! 1)] g =
      Inr (composition (rank sc ! 0) # composition (rank sc ! 1)
             # fst (spec_children (rank sc) (POPULATION_SIZE - 2) g),
           snd (spec_children (rank sc) (POPULATION_SIZE - 2) g))"
    and ok: "floats_ok (snd (spec_children (rank sc) (POPULATION_SIZE - 2) g))"
    and sx: "list_all on_simplex (fst (spec_children (rank sc) (POPULATION_SIZE - 2) g))"
    by (simp_all add: numeral_2_eq_2)
  have g0: "getitem (rank sc) 0 = Inr (rank sc ! 0)" and g1: "getitem (rank sc) 1 = Inr (rank sc ! 1)"
    using lr ne by (simp_all add: getitem_def)
  have "next_generation sc g =
           Inr (rank sc,
                composition (rank sc ! 0) # composition (rank sc ! 1)
                  # fst (spec_children (rank sc) (POPULATION_SIZE - 2) g),
                snd (spec_children (rank sc) (POPULATION_SIZE - 2) g))"
    unfolding next_generation_def Let_def g0 g1 by (simp only: sum.case r prod.case)
  with ok sx show ?thesis by simp
qed

lemma generation_ok:
  assumes "floats_ok g" and "pop_ok st"
  shows "\<exists>sc rest g'.
           map composition sc = pop st \<and> list_all consistent sc
         \<and> generation st g =
             Inr (\<lparr>pop = composition (rank sc ! 0) # composition (rank sc ! 1) # rest,
                   all_results = all_results st @ map history_entry sc,
                   scored = Some (rank sc)\<rparr>, g')
         \<and> floats_ok g'
         \<and> length (composition (rank sc ! 0) # composition (rank sc ! 1) # rest) = POPULATION_SIZE
         \<and> list_all on_simplex (composition (rank sc ! 0) # composition (rank sc ! 1) # rest)"
proof -
  from assms(2) have len: "length (pop st) = POPULATION_SIZE" and sx: "list_all on_simplex (pop st)"
    by (simp_all add: pop_ok_def)
  from evaluate_ok [OF sx, of "[]" "all_results st"] obtain sc
    where e: "evaluate (pop st) [] (all_results st) = Inr (sc, all_results st @ map history_entry sc)"
      and m: "map composition sc = pop st" and c: "list_all consistent sc" by auto
  from m len have lsc: "length sc = POPULATION_SIZE" by (metis length_map)
  then have lr: "length (rank sc) = 100" by (simp add: rank_length POPULATION_SIZE_def)
  have all_sx: "\<And>s. s \<in> set sc \<Longrightarrow> on_simplex (composition s)"
  proof -
    fix s assume "s \<in> set sc"
    then have "composition s \<in> set (pop st)" using m by (metis image_eqI set_map)
    with sx show "on_simplex (composition s)" by (simp add: list_all_iff)
  qed
  then have near: "list_all (\<lambda>s. near_simplex (composition s)) sc"
    by (simp add: list_all_iff on_simplex_near)
  have two: "2 \<le> length sc" using lsc by (simp add: POPULATION_SIZE_def)
  define rest where "rest = fst (spec_children (rank sc) (POPULATION_SIZE - 2) g)"
  define g' where "g' = snd (spec_children (rank sc) (POPULATION_SIZE - 2) g)"
  from next_generation_ok [OF assms(1) two near]
  have ng: "next_generation sc g =
           Inr (rank sc, composition (rank sc ! 0) # composition (rank sc ! 1) # rest, g')"
    and ok: "floats_ok g'" and rs: "list_all on_simplex rest"
    by (simp_all add: rest_def g'_def)
  have s0: "on_simplex (composition (rank sc ! 0))"
    using all_sx [of "rank sc ! 0"] lr rank_set [of sc] by (metis nth_mem zero_less_numeral)
  have s1: "on_simplex (composition (rank sc ! 1))"
    using all_sx [of "rank sc ! 1"] lr rank_set [of sc] by (metis nth_mem one_less_numeral_iff semiring_norm(76))
  have l: "length (composition (rank sc ! 0) # composition (rank sc ! 1) # rest) = POPULATION_SIZE"
    by (simp add: rest_def spec_children_length POPULATION_SIZE_def)
  have "generation st g =
             Inr (\<lparr>pop = composition (rank sc ! 0) # composition (rank sc ! 1) # rest,
                   all_results = all_results st @ map history_entry sc,
                   scored = Some (rank sc)\<rparr>, g')"
    using e ng by (simp add: generation_def)
  with m c ok l rs s0 s1 show ?thesis by (intro exI [of _ sc] exI [of _ rest] exI [of _ g']) simp
qed

lemma ga_loop_snoc:
  "ga_loop (Suc n) st g =
     (case ga_loop n st g of Inl e \<Rightarrow> Inl e | Inr (st1, g1) \<Rightarrow> generation st1 g1)"
proof (induction n arbitrary: st g)
  case 0
  show ?case by (simp split: sum.splits)
next
  case (Suc n)
  show ?case
  proof (cases "generation st g")
    case (Inl e)
    then show ?thesis by simp
  next
    case (Inr r)
    obtain st1 g1 where r: "r = (st1, g1)" by (cases r)
    have "ga_loop (Suc (Suc n)) st g = ga_loop (Suc n) st1 g1" using Inr r by simp
    also have "\<dots> = (case ga_loop n st1 g1 of Inl e \<Rightarrow> Inl e | Inr (st2, g2) \<Rightarrow> generation st2 g2)"
      by (rule Suc.IH)
    also have "ga_loop n st1 g1 = ga_loop (Suc n) st g" using Inr r by simp
    finally show ?thesis .
  qed
qed

lemma consistent_entry:
  "consistent s \<Longrightarrow>
   calculate_fitness (composition s) = Inr (fitness_of s, fst (history_entry s), snd (history_entry s))"
  by (cases s) (simp add: consistent_def composition_def fitness_of_def history_entry_def)

lemma generation_inv:
  assumes "floats_ok g" and "pop_ok st"
  shows "\<exists>st' g' new ranked.
           generation st g = Inr (st', g') \<and> pop_ok st' \<and> floats_ok g' \<and> elite_ok st'
         \<and> all_results st' = all_results st @ new \<and> length new = POPULATION_SIZE
         \<and> (\<forall>i < POPULATION_SIZE.
               \<exists>fit. calculate_fitness (pop st ! i) = Inr (fit, fst (new ! i), snd (new ! i)))
         \<and> scored st' = Some ranked \<and> ranked \<noteq> []
         \<and> set (map composition ranked) = set (pop st)
         \<and> (\<forall>r. elite_ok st \<longrightarrow> scored st = Some r \<longrightarrow> fitness_of (r ! 0) \<le> fitness_of (ranked ! 0))"
proof -
  from generation_ok [OF assms] obtain sc rest g' where
    m: "map composition sc = pop st" and c: "list_all consistent sc"
    and gen: "generation st g =
             Inr (\<lparr>pop = composition (rank sc ! 0) # composition (rank sc ! 1) # rest,
                   all_results = all_results st @ map history_entry sc,
                   scored = Some (rank sc)\<rparr>, g')"
    and ok: "floats_ok g'"
    and len: "length (composition (rank sc ! 0) # composition (rank sc ! 1) # rest) = POPULATION_SIZE"
    and sx: "list_all on_simplex (composition (rank sc ! 0) # composition (rank sc ! 1) # rest)"
    by blast
  define st' where "st' = \<lparr>pop = composition (rank sc ! 0) # composition (rank sc ! 1) # rest,
                   all_results = all_results st @ map history_entry sc,
                   scored = Some (rank sc)\<rparr>"
  from assms(2) have lp: "length (pop st) = POPULATION_SIZE" by (simp add: pop_ok_def)
  with m have lsc: "length sc = POPULATION_SIZE" by (metis length_map)
  then have ne: "sc \<noteq> []" by (auto simp: POPULATION_SIZE_def)
  then have rne: "rank sc \<noteq> []" using rank_length [of sc] by auto
  have rc: "list_all consistent (rank sc)" using c by (simp add: list_all_iff rank_set)
  have pok: "pop_ok st'" using len sx by (simp add: pop_ok_def st'_def)
  have best: "list_all (\<lambda>s. fitness_of s \<le> fitness_of (rank sc ! 0)) (rank sc)"
    by (simp add: list_all_iff rank_set rank_hd_best)
  have eok: "elite_ok st'" using rne rc best by (simp add: elite_ok_def st'_def)
  have comps: "set (map composition (rank sc)) = set (pop st)"
    using m by (metis rank_set set_map)
  have entries: "\<forall>i < POPULATION_SIZE.
       \<exists>fit. calculate_fitness (pop st ! i)
                = Inr (fit, fst (map history_entry sc ! i), snd (map history_entry sc ! i))"
  proof (intro allI impI)
    fix i assume i: "i < POPULATION_SIZE"
    then have "consistent (sc ! i)" using c lsc by (simp add: list_all_length)
    from consistent_entry [OF this] have
      "calculate_fitness (composition (sc ! i))
         = Inr (fitness_of (sc ! i), fst (history_entry (sc ! i)), snd (history_entry (sc ! i)))" .
    moreover have "composition (sc ! i) = pop st ! i" using m i lsc by (metis nth_map)
    ultimately show "\<exists>fit. calculate_fitness (pop st ! i)
                = Inr (fit, fst (map history_entry sc ! i), snd (map history_entry sc ! i))"
      using i lsc by simp
  qed
  have mono: "\<forall>r. elite_ok st \<longrightarrow> scored st = Some r \<longrightarrow> fitness_of (r ! 0) \<le> fitness_of (rank sc ! 0)"
  proof (intro allI impI)
    fix r assume e: "elite_ok st" and r: "scored st = Some r"
    then have r0: "consistent (r ! 0)" and p0: "pop st ! 0 = composition (r ! 0)"
      by (auto simp: elite_ok_def list_all_length)
    have "consistent (sc ! 0)" using c ne by (simp add: list_all_length)
    from consistent_entry [OF this] consistent_entry [OF r0]
    have "fitness_of (sc ! 0) = fitness_of (r ! 0)"
      using p0 m ne by (metis Inr_inject Pair_inject length_greater_0_conv nth_map)
    moreover have "fitness_of (sc ! 0) \<le> fitness_of (rank sc ! 0)"
      using ne by (intro rank_hd_best) simp
    ultimately show "fitness_of (r ! 0) \<le> fitness_of (rank sc ! 0)" by simp
  qed
  have "generation st g = Inr (st', g')" using gen by (simp add: st'_def)
  moreover have "all_results st' = all_results st @ map history_entry sc"
    and "scored st' = Some (rank sc)" by (simp_all add: st'_def)
  moreover have "length (map history_entry sc) = POPULATION_SIZE" using lsc by simp
  ultimately show ?thesis using pok ok eok entries rne comps mono by blast
qed

lemma ga_loop_ok:
  "floats_ok g \<Longrightarrow> pop_ok st \<Longrightarrow>
   \<exists>st' g' new. ga_loop n st g = Inr (st', g') \<and> pop_ok st' \<and> floats_ok g'
      \<and> (0 < n \<longrightarrow> elite_ok st')
      \<and> all_results st' = all_results st @ new \<and> length new = POPULATION_SIZE * n"
proof (induction n arbitrary: st g)
  case 0
  then show ?case by simp
next
  case (Suc n)
  from generation_inv [OF Suc.prems] obtain st1 g1 new1 where
    gen: "generation st g = Inr (st1, g1)" and p1: "pop_ok st1" and ok1: "floats_ok g1"
    and e1: "elite_ok st1" and a1: "all_results st1 = all_results st @ new1"
    and l1: "length new1 = POPULATION_SIZE" by blast
  from Suc.IH [OF ok1 p1] obtain st' g' new where
    loop: "ga_loop n st1 g1 = Inr (st', g')" and p: "pop_ok st'" and ok: "floats_ok g'"
    and e: "0 < n \<longrightarrow> elite_ok st'" and a: "all_results st' = all_results st1 @ new"
    and l: "length new = POPULATION_SIZE * n" by blast
  have "ga_loop (Suc n) st g = Inr (st', g')" using gen loop by simp
  moreover have "elite_ok st'"
  proof (cases n)
    case 0
    with loop e1 show ?thesis by simp
  next
    case (Suc m)
    with e show ?thesis by simp
  qed
  moreover have "all_results st' = all_results st @ (new1 @ new)" using a a1 by simp
  moreover have "length (new1 @ new) = POPULATION_SIZE * Suc n" using l l1 by simp
  ultimately show ?case using p ok by blast
qed

lemma initial_state_ok:
  assumes "floats_ok g" and "initialize g = Inr (pop0, g1)"
  shows "pop_ok (initial_state pop0) \<and> floats_ok g1"
  using initialize_ok [OF assms] by (simp add: pop_ok_def initial_state_def)

lemma run_ga_ok:
  assumes "floats_ok g" and "initialize g = Inr (pop0, g1)"
  shows "\<exists>st g2 ranked. ga_loop GENERATIONS (initial_state pop0) g1 = Inr (st, g2)
           \<and> scored st = Some ranked \<and> ranked \<noteq> []
           \<and> run_ga g = Inr ((ranked ! 0, all_results st), g2)
           \<and> length (all_results st) = POPULATION_SIZE * GENERATIONS"
proof -
  from initial_state_ok [OF assms] have p: "pop_ok (initial_state pop0)" and ok: "floats_ok g1"
    by simp_all
  from ga_loop_ok [OF ok p, of GENERATIONS] obtain st g2 new where
    loop: "ga_loop GENERATIONS (initial_state pop0) g1 = Inr (st, g2)"
    and e: "0 < GENERATIONS \<longrightarrow> elite_ok st"
    and a: "all_results st = all_results (initial_state pop0) @ new"
    and l: "length new = POPULATION_SIZE * GENERATIONS" by (elim exE conjE) (rule that)
  from e have "elite_ok st" by (simp add: GENERATIONS_def)
  then obtain ranked where r: "scored st = Some ranked" and ne: "ranked \<noteq> []"
    by (auto simp: elite_ok_def split: option.splits)
  have "run_ga g = Inr ((ranked ! 0, all_results st), g2)"
    using assms(2) loop r ne by (simp add: run_ga_def initial_state_def getitem_def)
  moreover have "length (all_results st) = POPULATION_SIZE * GENERATIONS"
    using a l by (simp add: initial_state_def)
  ultimately show ?thesis using loop r ne by blast
qed

lemma random_random_half: "random_random rng_half = (1 / 2, rng_half)"
  by (simp add: random_random_def rng_half_def)

lemma floats_ok_half: "floats_ok rng_half"
  by (simp add: floats_ok_def rng_half_def)

lemma draw_floats_half: "draw_floats n rng_half = (replicate n (1 / 2), rng_half)"
  by (induction n) (simp_all add: random_random_half)

lemma draw_vectors_half:
  "draw_vectors n m rng_half = (replicate n (replicate m (1 / 2)), rng_half)"
  by (induction n) (simp_all add: draw_floats_half)

lemma renormalize_all_replicate:
  "renormalize v = Inr w \<Longrightarrow> renormalize_all (replicate n v) = Inr (replicate n w)"
  by (induction n) simp_all

lemma initialize_half:
  "initialize rng_half = Inr (replicate POPULATION_SIZE [1 / 4, 1 / 4, 1 / 4, 1 / 4], rng_half)"
proof -
  have four: "replicate 4 (1 / 2 :: real) = [1 / 2, 1 / 2, 1 / 2, 1 / 2]"
    by (simp add: numeral_eq_Suc)
  have "renormalize (replicate 4 (1 / 2)) = Inr [1 / 4, 1 / 4, 1 / 4, 1 / 4]"
    unfolding four by (simp add: renormalize_def)
  from renormalize_all_replicate [OF this] show ?thesis
    by (simp add: initialize_def draw_vectors_half length_COMPONENT_NAMES)
qed

text \<open>
  C3: when the draws of \<^verbatim>\<open>random.random()\<close> lie in \<open>[0, 1)\<close> and initialisation has
  returned, every member of the initial population lies on the simplex (one entry per
  component, every entry nonnegative, entries summing to one), and for every number \<open>k\<close>
  of generations the loop returns a population of \<open>POPULATION_SIZE\<close> members that all
  lie on the simplex. Over the reals the sum is exactly one, hence within any tolerance.
\<close>

theorem C3_population_on_simplex:
  assumes "floats_ok g" and "initialize g = Inr (pop0, g1)"
  shows "list_all on_simplex pop0
         \<and> (\<exists>st gk. ga_loop k (initial_state pop0) g1 = Inr (st, gk)
               \<and> length (pop st) = POPULATION_SIZE \<and> list_all on_simplex (pop st))"
proof -
  from initial_state_ok [OF assms] have p: "pop_ok (initial_state pop0)" and ok: "floats_ok g1"
    by simp_all
  from ga_loop_ok [OF ok p, of k] obtain st gk where
    "ga_loop k (initial_state pop0) g1 = Inr (st, gk)" and "pop_ok st" by blast
  then show ?thesis using initialize_ok [OF assms] by (auto simp: pop_ok_def)
qed

theorem C3_population_on_simplex_witness:
  "floats_ok rng_half
   \<and> initialize rng_half = Inr (replicate POPULATION_SIZE [1 / 4, 1 / 4, 1 / 4, 1 / 4], rng_half)
   \<and> list_all on_simplex (replicate POPULATION_SIZE [1 / 4, 1 / 4, 1 / 4, 1 / 4])
   \<and> (\<exists>st gk. ga_loop 3 (initial_state (replicate POPULATION_SIZE [1 / 4, 1 / 4, 1 / 4, 1 / 4]))
                  rng_half = Inr (st, gk)
          \<and> length (pop st) = POPULATION_SIZE \<and> list_all on_simplex (pop st))"
  using C3_population_on_simplex [OF floats_ok_half initialize_half, of 3]
  by (simp add: floats_ok_half initialize_half)

text \<open>
  C4: under the same conditions, for every \<open>k\<close> the loop returns after \<open>k + 1\<close> and after
  \<open>k + 2\<close> generations, each time with a nonempty ranked list whose tuples hold the
  evaluator's results. In each of the two lists no tuple has a fitness above the one at
  rank 0, so the fitness at rank 0 is the best fitness of that generation. The
  composition at rank 0 after generation \<open>k + 1\<close> is the first member of the population
  that generation \<open>k + 2\<close> evaluates and ranks, and the best fitness after generation
  \<open>k + 2\<close> is not below the best fitness after generation \<open>k + 1\<close>.
\<close>

theorem C4_elitism_monotone:
  assumes "floats_ok g" and "initialize g = Inr (pop0, g1)"
  shows "\<exists>st gk st' gk' ranked ranked'.
           ga_loop (Suc k) (initial_state pop0) g1 = Inr (st, gk)
         \<and> ga_loop (Suc (Suc k)) (initial_state pop0) g1 = Inr (st', gk')
         \<and> scored st = Some ranked \<and> ranked \<noteq> [] \<and> list_all consistent ranked
         \<and> scored st' = Some ranked' \<and> ranked' \<noteq> [] \<and> list_all consistent ranked'
         \<and> (\<forall>s \<in> set ranked. fitness_of s \<le> fitness_of (ranked ! 0))
         \<and> (\<forall>s \<in> set ranked'. fitness_of s \<le> fitness_of (ranked' ! 0))
         \<and> pop st ! 0 = composition (ranked ! 0)
         \<and> set (map composition ranked') = set (pop st)
         \<and> fitness_of (ranked ! 0) \<le> fitness_of (ranked' ! 0)"
proof -
  from initial_state_ok [OF assms] have p: "pop_ok (initial_state pop0)" and ok: "floats_ok g1"
    by simp_all
  from ga_loop_ok [OF ok p, of "Suc k"] obtain st gk where
    loop: "ga_loop (Suc k) (initial_state pop0) g1 = Inr (st, gk)"
    and pk: "pop_ok st" and okk: "floats_ok gk" and e: "elite_ok st" by auto
  from e obtain ranked where r: "scored st = Some ranked" and ne: "ranked \<noteq> []"
    and cons: "list_all consistent ranked" and elite: "pop st ! 0 = composition (ranked ! 0)"
    and best: "\<forall>s \<in> set ranked. fitness_of s \<le> fitness_of (ranked ! 0)"
    by (auto simp: elite_ok_def list_all_iff split: option.splits)
  from generation_inv [OF okk pk] obtain st' gk' ranked' where
    gen: "generation st gk = Inr (st', gk')" and e': "elite_ok st'"
    and r': "scored st' = Some ranked'" and ne': "ranked' \<noteq> []"
    and comps: "set (map composition ranked') = set (pop st)"
    and mono: "\<forall>r. elite_ok st \<longrightarrow> scored st = Some r \<longrightarrow> fitness_of (r ! 0) \<le> fitness_of (ranked' ! 0)"
    by (elim exE conjE) (rule that)
  from e' r' have cons': "list_all consistent ranked'"
    and best': "\<forall>s \<in> set ranked'. fitness_of s \<le> fitness_of (ranked' ! 0)"
    by (auto simp: elite_ok_def list_all_iff)
  have "ga_loop (Suc (Suc k)) (initial_state pop0) g1 = Inr (st', gk')"
    using loop gen by (subst ga_loop_snoc) simp
  moreover have "fitness_of (ranked ! 0) \<le> fitness_of (ranked' ! 0)" using mono e r by blast
  ultimately show ?thesis
    using loop r ne cons r' ne' cons' best best' elite comps
    by (intro exI [of _ st] exI [of _ gk] exI [of _ st'] exI [of _ gk']
        exI [of _ ranked] exI [of _ ranked']) simp
qed

theorem C4_elitism_monotone_witness:
  "floats_ok rng_half
   \<and> initialize rng_half = Inr (replicate POPULATION_SIZE [1 / 4, 1 / 4, 1 / 4, 1 / 4], rng_half)
   \<and> (\<exists>st gk st' gk' ranked ranked'.
           ga_loop (Suc 0) (initial_state (replicate POPULATION_SIZE [1 / 4, 1 / 4, 1 / 4, 1 / 4]))
             rng_half = Inr (st, gk)
         \<and> ga_loop (Suc (Suc 0)) (initial_state (replicate POPULATION_SIZE [1 / 4, 1 / 4, 1 / 4, 1 / 4]))
             rng_half = Inr (st', gk')
         \<and> scored st = Some ranked \<and> ranked \<noteq> [] \<and> list_all consistent ranked
         \<and> scored st' = Some ranked' \<and> ranked' \<noteq> [] \<and> list_all consistent ranked'
         \<and> (\<forall>s \<in> set ranked. fitness_of s \<le> fitness_of (ranked ! 0))
         \<and> (\<forall>s \<in> set ranked'. fitness_of s \<le> fitness_of (ranked' ! 0))
         \<and> pop st ! 0 = composition (ranked ! 0)
         \<and> set (map composition ranked') = set (pop st)
         \<and> fitness_of (ranked ! 0) \<le> fitness_of (ranked' ! 0))"
  using C4_elitism_monotone [OF floats_ok_half initialize_half, of 0]
  by (simp add: floats_ok_half initialize_half)

text \<open>
  C9: under the same conditions the run returns, and its history holds exactly
  \<open>POPULATION_SIZE * GENERATIONS\<close> pairs. Each generation keeps the history it received
  and appends \<open>POPULATION_SIZE\<close> pairs to it, the \<open>i\<close>-th of them the stability and cost
  that the evaluator gives for the \<open>i\<close>-th member of that generation's population.
\<close>

theorem C9_history_length:
  assumes "floats_ok g" and "initialize g = Inr (pop0, g1)"
  shows "(\<exists>best hist g2. run_ga g = Inr ((best, hist), g2)
             \<and> length hist = POPULATION_SIZE * GENERATIONS)
         \<and> (\<exists>st gk st' gk' new.
               ga_loop k (initial_state pop0) g1 = Inr (st, gk)
             \<and> ga_loop (Suc k) (initial_state pop0) g1 = Inr (st', gk')
             \<and> length (all_results st) = POPULATION_SIZE * k
             \<and> all_results st' = all_results st @ new
             \<and> length new = POPULATION_SIZE
             \<and> (\<forall>i < POPULATION_SIZE.
                   \<exists>fit. calculate_fitness (pop st ! i) = Inr (fit, fst (new ! i), snd (new ! i))))"
proof -
  from run_ga_ok [OF assms] have run: "\<exists>best hist g2. run_ga g = Inr ((best, hist), g2)
             \<and> length hist = POPULATION_SIZE * GENERATIONS" by blast
  from initial_state_ok [OF assms] have p: "pop_ok (initial_state pop0)" and ok: "floats_ok g1"
    by simp_all
  from ga_loop_ok [OF ok p, of k] obtain st gk new0 where
    loop: "ga_loop k (initial_state pop0) g1 = Inr (st, gk)"
    and pk: "pop_ok st" and okk: "floats_ok gk"
    and a: "all_results st = all_results (initial_state pop0) @ new0"
    and l: "length new0 = POPULATION_SIZE * k" by (elim exE conjE) (rule that)
  from generation_inv [OF okk pk] obtain st' gk' new where
    gen: "generation st gk = Inr (st', gk')"
    and a': "all_results st' = all_results st @ new" and l': "length new = POPULATION_SIZE"
    and entries: "\<forall>i < POPULATION_SIZE.
               \<exists>fit. calculate_fitness (pop st ! i) = Inr (fit, fst (new ! i), snd (new ! i))"
    by (elim exE conjE) (rule that)
  have "ga_loop (Suc k) (initial_state pop0) g1 = Inr (st', gk')"
    using loop gen by (subst ga_loop_snoc) simp
  moreover have "length (all_results st) = POPULATION_SIZE * k"
    using a l by (simp add: initial_state_def)
  ultimately show ?thesis using run loop a' l' entries by blast
qed

theorem C9_history_length_witness:
  "floats_ok rng_half
   \<and> initialize rng_half = Inr (replicate POPULATION_SIZE [1 / 4, 1 / 4, 1 / 4, 1 / 4], rng_half)
   \<and> (\<exists>best hist g2. run_ga rng_half = Inr ((best, hist), g2)
          \<and> length hist = POPULATION_SIZE * GENERATIONS)"
  using C9_history_length [OF floats_ok_half initialize_half, of 0]
  by (simp add: floats_ok_half initialize_half)


lemma floats_ok_zero: "floats_ok rng_zero"
  by (simp add: floats_ok_def rng_zero_def)






lemma random_random_const: "floats g = sconst c \<Longrightarrow> random_random g = (c, g)"
  by (simp add: random_random_def)

lemma draw_floats_const: "floats g = sconst c \<Longrightarrow> draw_floats n g = (replicate n c, g)"
  by (induction n) (simp_all add: random_random_const)

lemma draw_vectors_const:
  "floats g = sconst c \<Longrightarrow> draw_vectors n m g = (replicate n (replicate m c), g)"
  by (induction n) (simp_all add: draw_floats_const)

lemma initialize_zero: "initialize rng_zero = Inl ZeroDivisionError"
proof -
  have ps: "POPULATION_SIZE = Suc 99" by (simp add: POPULATION_SIZE_def)
  have "floats rng_zero = sconst 0" by (simp add: rng_zero_def)
  then have d: "draw_vectors POPULATION_SIZE (length COMPONENT_NAMES) rng_zero
                  = (replicate POPULATION_SIZE (replicate 4 0), rng_zero)"
    by (simp add: draw_vectors_const length_COMPONENT_NAMES)
  have r: "renormalize (replicate 4 0) = Inl ZeroDivisionError"
    by (simp add: renormalize_def sum_list_replicate)
  show ?thesis unfolding initialize_def d unfolding ps
    by (simp only: Let_def prod.case replicate.simps renormalize_all.simps r sum.case)
qed

theorem C6_counterexample:
  "floats_ok rng_zero \<and> run_ga rng_zero = Inl ZeroDivisionError"
  by (simp add: floats_ok_zero run_ga_def initialize_zero)

lemma renormalize_all_cases:
  "list_all (\<lambda>v. v \<noteq> []) raw \<Longrightarrow>
   renormalize_all raw =
     (if list_ex (\<lambda>v. sum_list v = 0) raw then Inl ZeroDivisionError
      else Inr (map (\<lambda>v. map (\<lambda>x. x / sum_list v) v) raw))"
  by (induction raw) (auto simp: renormalize_def)

text \<open>
  C6 as the code has it: with draws in \<open>[0, 1)\<close>, when some initial vector sums to zero
  the run raises ZeroDivisionError (nothing is detected or resampled), and otherwise the
  run returns.
\<close>

theorem C6_zero_sum_raises:
  assumes "floats_ok g"
  shows "if list_ex (\<lambda>v. sum_list v = 0)
              (fst (draw_vectors POPULATION_SIZE (length COMPONENT_NAMES) g))
         then run_ga g = Inl ZeroDivisionError
         else (\<exists>best hist g2. run_ga g = Inr ((best, hist), g2))"
proof -
  obtain raw g1 where d: "draw_vectors POPULATION_SIZE (length COMPONENT_NAMES) g = (raw, g1)"
    by (cases "draw_vectors POPULATION_SIZE (length COMPONENT_NAMES) g")
  from draw_vectors_ok [OF assms d]
  have "list_all (\<lambda>v. length v = length COMPONENT_NAMES \<and> list_all (\<lambda>x. 0 \<le> x) v) raw" by simp
  then have "list_all (\<lambda>v. v \<noteq> []) raw"
    by (auto simp: list_all_iff length_COMPONENT_NAMES)
  note cases = renormalize_all_cases [OF this]
  show ?thesis
  proof (cases "list_ex (\<lambda>v. sum_list v = 0) raw")
    case True
    then have "initialize g = Inl ZeroDivisionError" using d cases by (simp add: initialize_def)
    then show ?thesis using True d by (simp add: run_ga_def)
  next
    case False
    then have "initialize g = Inr (map (\<lambda>v. map (\<lambda>x. x / sum_list v) v) raw, g1)"
      using d cases by (simp add: initialize_def)
    from run_ga_ok [OF assms this]
    have "\<exists>best hist g2. run_ga g = Inr ((best, hist), g2)" by blast
    then show ?thesis using False d by simp
  qed
qed

theorem C6_zero_sum_raises_witness:
  "floats_ok rng_half
   \<and> \<not> list_ex (\<lambda>v. sum_list v = 0)
          (fst (draw_vectors POPULATION_SIZE (length COMPONENT_NAMES) rng_half))
   \<and> (\<exists>best hist g2. run_ga rng_half = Inr ((best, hist), g2))"
proof -
  have "floats rng_half = sconst (1 / 2)" by (simp add: rng_half_def)
  then have d: "draw_vectors POPULATION_SIZE (length COMPONENT_NAMES) rng_half
                  = (replicate POPULATION_SIZE [1 / 2, 1 / 2, 1 / 2, 1 / 2], rng_half)"
    by (simp add: draw_vectors_const length_COMPONENT_NAMES numeral_eq_Suc)
  have no: "\<not> list_ex (\<lambda>v. sum_list v = 0)
          (fst (draw_vectors POPULATION_SIZE (length COMPONENT_NAMES) rng_half))"
    unfolding d by (simp add: list_ex_iff)
  with C6_zero_sum_raises [OF floats_ok_half] show ?thesis by (simp add: floats_ok_half)
qed

lemma rank_descending:
  "sorted_wrt (\<lambda>a b. fitness_of b \<le> fitness_of a) (rank sc)"
proof -
  have "sorted (map (\<lambda>x. - fitness_of x) (rank sc))" by (simp add: rank_def)
  then show ?thesis by (simp add: sorted_map)
qed

lemma rank_stable:
  "filter (\<lambda>s. fitness_of s = f) (rank sc) = filter (\<lambda>s. fitness_of s = f) sc"
proof -
  have "filter (\<lambda>s. - fitness_of s = - f) (sort_key (\<lambda>x. - fitness_of x) sc)
          = filter (\<lambda>s. - fitness_of s = - f) sc"
    by (rule sort_key_stable)
  then show ?thesis by (simp add: rank_def)
qed

text \<open>Two scored tuples, the second with the higher fitness.\<close>

lemma rank_two:
  "rank [(1, 0, 0, [1 / 4, 1 / 4, 1 / 4, 1 / 4]), (2, 0, 0, [1 / 2, 1 / 2, 0, 0])]
     = [(2, 0, 0, [1 / 2, 1 / 2, 0, 0]), (1, 0, 0, [1 / 4, 1 / 4, 1 / 4, 1 / 4])]"
  by (simp add: rank_def fitness_of_def)

text \<open>
  C5: the part of the loop body after the evaluation loop, on any scored list \<open>sc\<close> of at
  least two tuples whose compositions are on the simplex within the tolerance, with
  draws of \<^verbatim>\<open>random.random()\<close> in \<open>[0, 1)\<close>. It returns; the ranked list is \<open>sc\<close> sorted by
  fitness descending, tuples of equal fitness in their order in \<open>sc\<close>; the next
  population has \<open>POPULATION_SIZE\<close> members, first the compositions at ranks 0 and 1
  unchanged, then exactly the children that the specification's reproduce step makes
  from the generator, one after the other: for each child two draws reduced modulo the
  size of the top ten pick the parents, the child is their elementwise mean, a draw
  below 0.1 moves the entry at one drawn index by \<open>-0.02 + 0.04 * u'\<close>, negative
  entries become 0, and every entry is divided by the sum. The generator is left as the
  specification's step leaves it. A generation is the evaluation loop followed by this.
\<close>

theorem C5_generation_step:
  assumes "floats_ok g" and "2 \<le> length sc"
    and "list_all (\<lambda>s. near_simplex (composition s)) sc"
  shows "next_generation sc g =
           Inr (rank sc,
                composition (rank sc ! 0) # composition (rank sc ! 1)
                  # fst (spec_children (rank sc) (POPULATION_SIZE - 2) g),
                snd (spec_children (rank sc) (POPULATION_SIZE - 2) g))
         \<and> sorted_wrt (\<lambda>a b. fitness_of b \<le> fitness_of a) (rank sc)
         \<and> (\<forall>f. filter (\<lambda>s. fitness_of s = f) (rank sc) = filter (\<lambda>s. fitness_of s = f) sc)
         \<and> length (composition (rank sc ! 0) # composition (rank sc ! 1)
                     # fst (spec_children (rank sc) (POPULATION_SIZE - 2) g)) = POPULATION_SIZE
         \<and> (evaluate (pop st) [] (all_results st) = Inr (sc, res) \<longrightarrow>
              generation st g =
                Inr (\<lparr>pop = composition (rank sc ! 0) # composition (rank sc ! 1)
                              # fst (spec_children (rank sc) (POPULATION_SIZE - 2) g),
                       all_results = res, scored = Some (rank sc)\<rparr>,
                     snd (spec_children (rank sc) (POPULATION_SIZE - 2) g)))"
proof -
  from next_generation_ok [OF assms]
  have ng: "next_generation sc g =
           Inr (rank sc,
                composition (rank sc ! 0) # composition (rank sc ! 1)
                  # fst (spec_children (rank sc) (POPULATION_SIZE - 2) g),
                snd (spec_children (rank sc) (POPULATION_SIZE - 2) g))" by simp
  have len: "length (composition (rank sc ! 0) # composition (rank sc ! 1)
                     # fst (spec_children (rank sc) (POPULATION_SIZE - 2) g)) = POPULATION_SIZE"
    by (simp add: spec_children_length POPULATION_SIZE_def)
  have gen: "evaluate (pop st) [] (all_results st) = Inr (sc, res) \<longrightarrow>
              generation st g =
                Inr (\<lparr>pop = composition (rank sc ! 0) # composition (rank sc ! 1)
                              # fst (spec_children (rank sc) (POPULATION_SIZE - 2) g),
                       all_results = res, scored = Some (rank sc)\<rparr>,
                     snd (spec_children (rank sc) (POPULATION_SIZE - 2) g))"
    by (simp add: generation_def ng)
  show ?thesis using ng len gen rank_descending [of sc] rank_stable [of _ sc] by blast
qed

theorem C5_generation_step_witness:
  "floats_ok rng_half
   \<and> next_generation [(1, 0, 0, [1 / 4, 1 / 4, 1 / 4, 1 / 4]), (2, 0, 0, [1 / 2, 1 / 2, 0, 0])]
       rng_half =
       Inr ([(2, 0, 0, [1 / 2, 1 / 2, 0, 0]), (1, 0, 0, [1 / 4, 1 / 4, 1 / 4, 1 / 4])],
            [1 / 2, 1 / 2, 0, 0] # [1 / 4, 1 / 4, 1 / 4, 1 / 4]
              # fst (spec_children
                       [(2, 0, 0, [1 / 2, 1 / 2, 0, 0]), (1, 0, 0, [1 / 4, 1 / 4, 1 / 4, 1 / 4])]
                       (POPULATION_SIZE - 2) rng_half),
            snd (spec_children
                   [(2, 0, 0, [1 / 2, 1 / 2, 0, 0]), (1, 0, 0, [1 / 4, 1 / 4, 1 / 4, 1 / 4])]
                   (POPULATION_SIZE - 2) rng_half))"
  using C5_generation_step
          [of rng_half "[(1, 0, 0, [1 / 4, 1 / 4, 1 / 4, 1 / 4]), (2, 0, 0, [1 / 2, 1 / 2, 0, 0])]"]
  by (simp add: floats_ok_half rank_two near_simplex_def composition_def length_COMPONENT_NAMES)

end
